theory Spec2Isabelle
  imports Main
begin

section \<open>The multi-source track mixer of \<^verbatim>\<open>spotify_mixer.py\<close>\<close>

subsection \<open>Data model\<close>

text \<open>
  A track reference is the dictionary \<^verbatim>\<open>{"track_id": ..., "artist_id": ...}\<close> that
  \<^verbatim>\<open>get_playlist_tracks\<close> builds; both identifiers are strings.
\<close>

record track =
  track_id :: string
  artist_id :: string

text \<open>
  The only exception the mixer can raise on well-typed input is the \<^verbatim>\<open>IndexError\<close> of a
  list subscript out of range.
\<close>

datatype error = IndexError

text \<open>
  The fields of a \<^verbatim>\<open>Mixer\<close> object, in the order \<^verbatim>\<open>__init__\<close> assigns them.
  \<^verbatim>\<open>min_artist_separation\<close> and \<^verbatim>\<open>max_tracks\<close> are Python integers, hence unbounded and
  possibly negative; \<^verbatim>\<open>cur_channel\<close> and the source positions start at 0 and are only
  ever incremented or reset to 0, hence natural numbers; \<^verbatim>\<open>track_history\<close> is a Python
  set of track ids.
\<close>

record mixer =
  source_list :: "track list list"
  dedup :: bool
  min_artist_separation :: int
  fail_fast :: bool
  max_tracks :: int
  track_history :: "string set"
  artist_history :: "string list"
  cur_channel :: nat
  prepped :: bool
  source_positions :: "nat list"

text \<open>\<^verbatim>\<open>Mixer.__init__\<close>.\<close>

definition Mixer :: "track list list \<Rightarrow> bool \<Rightarrow> int \<Rightarrow> bool \<Rightarrow> int \<Rightarrow> mixer" where
  "Mixer srcs d k ff mx =
     \<lparr> source_list = srcs, dedup = d, min_artist_separation = k, fail_fast = ff,
       max_tracks = mx, track_history = {}, artist_history = [], cur_channel = 0,
       prepped = False, source_positions = map (\<lambda>_. 0) srcs \<rparr>"

subsection \<open>The methods of the mixer\<close>

text \<open>\<^verbatim>\<open>Mixer.prep\<close>: sets the flag \<^verbatim>\<open>prepped\<close> once.\<close>

definition prep :: "mixer \<Rightarrow> mixer" where
  "prep m = (if \<not> prepped m then m\<lparr>prepped := True\<rparr> else m)"

text \<open>
  The Python slice \<^verbatim>\<open>xs[i:]\<close>: a negative start counts from the end and is clamped at
  the beginning of the list, a non-negative start is clamped at its end. In particular
  \<^verbatim>\<open>xs[-0:]\<close> is \<^verbatim>\<open>xs[0:]\<close>, the whole list.
\<close>

definition slice_from :: "int \<Rightarrow> 'a list \<Rightarrow> 'a list" where
  "slice_from i xs =
     (if i < 0 then drop (nat (int (length xs) + i)) xs else drop (nat i) xs)"

text \<open>
  \<^verbatim>\<open>Mixer.add_to_history\<close>: the track id joins the set, the artist id is appended, and
  a history longer than \<^verbatim>\<open>min_artist_separation\<close> is replaced by the slice
  \<^verbatim>\<open>artist_history[-min_artist_separation:]\<close>.
\<close>

definition add_to_history :: "mixer \<Rightarrow> track \<Rightarrow> mixer" where
  "add_to_history m t =
     (let m1 = m\<lparr>track_history := insert (track_id t) (track_history m)\<rparr>;
          m2 = m1\<lparr>artist_history := artist_history m1 @ [artist_id t]\<rparr>
      in if int (length (artist_history m2)) > min_artist_separation m2
         then m2\<lparr>artist_history := slice_from (- min_artist_separation m2) (artist_history m2)\<rparr>
         else m2)"

text \<open>\<^verbatim>\<open>Mixer.next_channel\<close>: one step forward, back to 0 past the last source.\<close>

definition next_channel :: "mixer \<Rightarrow> mixer" where
  "next_channel m =
     (let m1 = m\<lparr>cur_channel := cur_channel m + 1\<rparr>
      in if cur_channel m1 \<ge> length (source_list m1) then m1\<lparr>cur_channel := 0\<rparr> else m1)"

text \<open>
  \<^verbatim>\<open>Mixer.get_next_candidate\<close>: the next unread track of the current source, whose
  position is then advanced, or \<^verbatim>\<open>None\<close> when the source is used up. The two subscripts
  by \<^verbatim>\<open>cur_channel\<close> raise \<^verbatim>\<open>IndexError\<close> out of range.
\<close>

definition get_next_candidate :: "mixer \<Rightarrow> error + (track option \<times> mixer)" where
  "get_next_candidate m =
     (if cur_channel m \<ge> length (source_list m) then Inl IndexError
      else let source = source_list m ! cur_channel m in
        if cur_channel m \<ge> length (source_positions m) then Inl IndexError
        else let position = source_positions m ! cur_channel m in
          if position \<ge> length source then Inr (None, m)
          else Inr (Some (source ! position),
                    m\<lparr>source_positions := (source_positions m)[cur_channel m := position + 1]\<rparr>))"

text \<open>\<^verbatim>\<open>Mixer.good_candidate\<close>.\<close>

definition good_candidate :: "mixer \<Rightarrow> track \<Rightarrow> bool" where
  "good_candidate m t =
     (if dedup m \<and> track_id t \<in> track_history m then False
      else if artist_id t \<in> set (artist_history m) then False
      else True)"

text \<open>
  One attempt: the body of the loop of \<^verbatim>\<open>Mixer.next_track\<close> after its fail-fast gate.
  The result is the accepted candidate (the loop then returns), or \<^verbatim>\<open>None\<close> when the
  source was used up or the candidate was rejected (the loop then adds one to
  \<^verbatim>\<open>consecutive_fails\<close> and goes on). Every branch ends with \<^verbatim>\<open>next_channel\<close>.
\<close>

definition attempt :: "mixer \<Rightarrow> error + (track option \<times> mixer)" where
  "attempt m =
     (case get_next_candidate m of
        Inl e \<Rightarrow> Inl e
      | Inr (None, m1) \<Rightarrow> Inr (None, next_channel m1)
      | Inr (Some candidate_track, m1) \<Rightarrow>
          if good_candidate m1 candidate_track
          then Inr (Some candidate_track, next_channel (add_to_history m1 candidate_track))
          else Inr (None, next_channel m1))"

text \<open>
  The \<^verbatim>\<open>while\<close> loop of \<^verbatim>\<open>Mixer.next_track\<close>, with \<^verbatim>\<open>consecutive_fails\<close> as its first
  argument. It may run forever, so it lives in the option monad: \<open>None\<close> is a loop that
  does not return. A returning loop gives the exception raised, or the accepted candidate
  (whose \<^verbatim>\<open>track_id\<close> the method returns), or Python's \<^verbatim>\<open>None\<close>, together with the mixer
  as the loop left it.
\<close>

partial_function (option) next_track_loop ::
  "nat \<Rightarrow> mixer \<Rightarrow> ((error + track option) \<times> mixer) option" where
  "next_track_loop consecutive_fails m =
     (if length (source_list m) > 0 \<and> int (card (track_history m)) < max_tracks m then
        if fail_fast m \<and> consecutive_fails \<ge> length (source_list m) then Some (Inr None, m)
        else (case attempt m of
                Inl e \<Rightarrow> Some (Inl e, m)
              | Inr (Some candidate_track, m1) \<Rightarrow> Some (Inr (Some candidate_track), m1)
              | Inr (None, m1) \<Rightarrow> next_track_loop (consecutive_fails + 1) m1)
      else Some (Inr None, m))"

declare next_track_loop.simps [code]

text \<open>
  \<^verbatim>\<open>Mixer.next_track\<close> up to the accepted candidate: \<^verbatim>\<open>prep\<close>, then the loop from
  \<^verbatim>\<open>consecutive_fails = 0\<close>.
\<close>

definition next_candidate_track :: "mixer \<Rightarrow> ((error + track option) \<times> mixer) option" where
  "next_candidate_track m = next_track_loop 0 (prep m)"

text \<open>
  \<^verbatim>\<open>Mixer.next_track\<close>: what the caller sees is \<^verbatim>\<open>candidate_track["track_id"]\<close> of the
  accepted candidate, or \<^verbatim>\<open>None\<close>.
\<close>

definition next_track :: "mixer \<Rightarrow> ((error + string option) \<times> mixer) option" where
  "next_track m =
     (case next_candidate_track m of
        None \<Rightarrow> None
      | Some (Inl e, m1) \<Rightarrow> Some (Inl e, m1)
      | Some (Inr None, m1) \<Rightarrow> Some (Inr None, m1)
      | Some (Inr (Some candidate_track), m1) \<Rightarrow> Some (Inr (Some (track_id candidate_track)), m1))"

subsection \<open>Repeated calls\<close>

text \<open>
  A caller such as \<^verbatim>\<open>mix_tracks\<close> calls \<^verbatim>\<open>next_track\<close> again and again on the same
  object. \<open>calls n m\<close> makes \<open>n\<close> calls in a row from the mixer \<open>m\<close> and gives what each
  call returned, in order, and the mixer after the last call; it is \<open>None\<close> when one of
  the calls does not return. \<open>candidate_calls\<close> is the same with the accepted candidates
  in place of their track ids.
\<close>

fun candidate_calls :: "nat \<Rightarrow> mixer \<Rightarrow> ((error + track option) list \<times> mixer) option" where
  "candidate_calls 0 m = Some ([], m)"
| "candidate_calls (Suc n) m =
     (case candidate_calls n m of
        None \<Rightarrow> None
      | Some (rs, m1) \<Rightarrow>
          (case next_candidate_track m1 of
             None \<Rightarrow> None
           | Some (r, m2) \<Rightarrow> Some (rs @ [r], m2)))"

fun calls :: "nat \<Rightarrow> mixer \<Rightarrow> ((error + string option) list \<times> mixer) option" where
  "calls 0 m = Some ([], m)"
| "calls (Suc n) m =
     (case calls n m of
        None \<Rightarrow> None
      | Some (rs, m1) \<Rightarrow>
          (case next_track m1 of
             None \<Rightarrow> None
           | Some (r, m2) \<Rightarrow> Some (rs @ [r], m2)))"

text \<open>
  What \<^verbatim>\<open>next_track\<close> returns for a result of its loop: the \<^verbatim>\<open>track_id\<close> of the accepted
  candidate.
\<close>

definition returned :: "error + track option \<Rightarrow> error + string option" where
  "returned r = (case r of Inl e \<Rightarrow> Inl e | Inr None \<Rightarrow> Inr None | Inr (Some t) \<Rightarrow> Inr (Some (track_id t)))"

text \<open>
  \<^verbatim>\<open>mix_tracks\<close>, without its printing and progress bar: the \<^verbatim>\<open>while True\<close> loop calls
  \<^verbatim>\<open>next_track\<close> until it returns \<^verbatim>\<open>None\<close> or \<^verbatim>\<open>max_tracks\<close> ids (here \<open>mx\<close>) are collected.
  The loop does not return when a call of \<^verbatim>\<open>next_track\<close> does not, and an exception of
  \<^verbatim>\<open>next_track\<close> propagates. The local \<^verbatim>\<open>track_id\<close> is \<open>tid\<close> here, the name being taken by
  the field of a track.
\<close>

partial_function (option) mix_tracks_loop ::
  "int \<Rightarrow> mixer \<Rightarrow> string list \<Rightarrow> (error + string list) option" where
  "mix_tracks_loop mx mixer mixed_tracks =
     (case next_track mixer of
        None \<Rightarrow> None
      | Some (Inl e, mixer1) \<Rightarrow> Some (Inl e)
      | Some (Inr None, mixer1) \<Rightarrow> Some (Inr mixed_tracks)
      | Some (Inr (Some tid), mixer1) \<Rightarrow>
          (let mixed_tracks1 = mixed_tracks @ [tid]
           in if int (length mixed_tracks1) \<ge> mx then Some (Inr mixed_tracks1)
              else mix_tracks_loop mx mixer1 mixed_tracks1))"

declare mix_tracks_loop.simps [code]

definition mix_tracks ::
  "track list list \<Rightarrow> bool \<Rightarrow> int \<Rightarrow> bool \<Rightarrow> int \<Rightarrow> (error + string list) option" where
  "mix_tracks srcs d k ff mx = mix_tracks_loop mx (Mixer srcs d k ff mx) []"

text \<open>The tracks produced: the results that are neither an exception nor \<^verbatim>\<open>None\<close>.\<close>

fun emitted :: "(error + 'a option) list \<Rightarrow> 'a list" where
  "emitted [] = []"
| "emitted (Inr (Some t) # rs) = t # emitted rs"
| "emitted (_ # rs) = emitted rs"

subsection \<open>Well-formed mixers\<close>

text \<open>
  What every mixer built by \<^verbatim>\<open>__init__\<close> and used through \<^verbatim>\<open>next_track\<close> satisfies: one
  position per source, the current channel inside the source list unless the list is
  empty, and a finite track history.
\<close>

definition well_formed :: "mixer \<Rightarrow> bool" where
  "well_formed m \<longleftrightarrow>
     length (source_positions m) = length (source_list m) \<and>
     (source_list m = [] \<or> cur_channel m < length (source_list m)) \<and>
     finite (track_history m)"

text \<open>The constructor arguments, which no method assigns.\<close>

definition config :: "mixer \<Rightarrow> track list list \<times> bool \<times> int \<times> bool \<times> int" where
  "config m = (source_list m, dedup m, min_artist_separation m, fail_fast m, max_tracks m)"

text \<open>The guard of the loop of \<^verbatim>\<open>next_track\<close>.\<close>

definition guard :: "mixer \<Rightarrow> bool" where
  "guard m \<longleftrightarrow> length (source_list m) > 0 \<and> int (card (track_history m)) < max_tracks m"

text \<open>
  The three things \<^verbatim>\<open>get_next_candidate\<close> looks at or does: whether the current source is
  used up, the track at its position, and the mixer with that position advanced.
\<close>

definition spent_channel :: "mixer \<Rightarrow> bool" where
  "spent_channel m \<longleftrightarrow>
     length (source_list m ! cur_channel m) \<le> source_positions m ! cur_channel m"

definition candidate :: "mixer \<Rightarrow> track" where
  "candidate m = source_list m ! cur_channel m ! (source_positions m ! cur_channel m)"

definition consume :: "mixer \<Rightarrow> mixer" where
  "consume m =
     m\<lparr>source_positions :=
         (source_positions m)[cur_channel m := source_positions m ! cur_channel m + 1]\<rparr>"

text \<open>
  Every source is read to its end: each position has reached the length of its source.
\<close>

definition sources_spent :: "mixer \<Rightarrow> bool" where
  "sources_spent m \<longleftrightarrow>
     list_all2 (\<lambda>source position. length source \<le> position) (source_list m) (source_positions m)"

text \<open>
  A mixer from which no call can produce a track any more: the guard of the loop is false
  (no sources, or the track history has reached \<^verbatim>\<open>max_tracks\<close>), or every source is read to
  its end while \<^verbatim>\<open>fail_fast\<close> stops the round.
\<close>

definition terminal :: "mixer \<Rightarrow> bool" where
  "terminal m \<longleftrightarrow> \<not> guard m \<or> (fail_fast m \<and> sources_spent m)"

text \<open>
  The next attempt will succeed: the guard of the loop holds, the current channel is not
  used up and \<^verbatim>\<open>good_candidate\<close> accepts its next track.
\<close>

definition ready :: "mixer \<Rightarrow> bool" where
  "ready m \<longleftrightarrow> guard m \<and> \<not> spent_channel m \<and> good_candidate m (candidate m)"

text \<open>
  No candidate is rejected and no channel is found used up during the first \<open>n\<close> calls on
  the mixer \<open>m0\<close>: each of these calls returns and finds the mixer ready.
\<close>

definition undisturbed :: "nat \<Rightarrow> mixer \<Rightarrow> bool" where
  "undisturbed n m0 \<longleftrightarrow>
     list_all (\<lambda>i. case candidate_calls i m0 of None \<Rightarrow> False | Some (rs, m) \<Rightarrow> ready m) [0..<n]"

subsection \<open>The scenario of the specification\<close>

text \<open>
  Scenario 1 of the specification: sources \<^verbatim>\<open>[[A1, A2], [B1]]\<close>, where \<^verbatim>\<open>A1\<close> and \<^verbatim>\<open>A2\<close> are by
  artist \<^verbatim>\<open>a\<close> and \<^verbatim>\<open>B1\<close> is by artist \<^verbatim>\<open>b\<close>.
\<close>

definition A1 :: track where
  "A1 = \<lparr>track_id = ''A1'', artist_id = ''a''\<rparr>"

definition A2 :: track where
  "A2 = \<lparr>track_id = ''A2'', artist_id = ''a''\<rparr>"

definition B1 :: track where
  "B1 = \<lparr>track_id = ''B1'', artist_id = ''b''\<rparr>"

text \<open>
  Scenario 4 of the specification, with a third source: two sources hold a track with the
  same \<^verbatim>\<open>track_id\<close> \<^verbatim>\<open>X\<close> under different artists.
\<close>

definition X1 :: track where
  "X1 = \<lparr>track_id = ''X'', artist_id = ''a''\<rparr>"

definition X2 :: track where
  "X2 = \<lparr>track_id = ''X'', artist_id = ''b''\<rparr>"

definition Y1 :: track where
  "Y1 = \<lparr>track_id = ''Y'', artist_id = ''c''\<rparr>"

section \<open>Properties\<close>

subsection \<open>Basic facts about the methods\<close>

lemma well_formed_Mixer: "well_formed (Mixer srcs d k ff mx)"
  by (simp add: well_formed_def Mixer_def)

lemma well_formed_prep: "well_formed (prep m) = well_formed m"
  by (simp add: well_formed_def prep_def)

lemma config_prep: "config (prep m) = config m"
  by (simp add: config_def prep_def)

lemma guard_prep: "guard (prep m) = guard m"
  by (simp add: guard_def prep_def)

lemma get_next_candidate_cases:
  assumes "well_formed m" "source_list m \<noteq> []"
  obtains (spent) "get_next_candidate m = Inr (None, m)" "spent_channel m"
  | (fetch) "get_next_candidate m = Inr (Some (candidate m), consume m)" "\<not> spent_channel m"
  using assms unfolding well_formed_def get_next_candidate_def Let_def consume_def candidate_def spent_channel_def
  by (cases "length (source_list m ! cur_channel m) \<le> source_positions m ! cur_channel m") auto

lemma good_candidate_consume: "good_candidate (consume m) t = good_candidate m t"
  by (simp add: good_candidate_def consume_def)

lemma attempt_cases:
  assumes "well_formed m" "source_list m \<noteq> []"
  obtains (spent) "attempt m = Inr (None, next_channel m)" "spent_channel m"
  | (reject) "attempt m = Inr (None, next_channel (consume m))" "\<not> spent_channel m"
      "\<not> good_candidate m (candidate m)"
  | (accept) "attempt m = Inr (Some (candidate m), next_channel (add_to_history (consume m) (candidate m)))"
      "\<not> spent_channel m" "good_candidate m (candidate m)"
  using assms(1,2)
proof (cases m rule: get_next_candidate_cases)
  case spent
  then show ?thesis using that(1) by (simp add: attempt_def)
next
  case fetch
  show ?thesis
  proof (cases "good_candidate m (candidate m)")
    case True
    then show ?thesis using fetch that(3) by (simp add: attempt_def good_candidate_consume)
  next
    case False
    then show ?thesis using fetch that(2) by (simp add: attempt_def good_candidate_consume)
  qed
qed

lemma loop_returns_aux:
  assumes step: "\<And>m m1. I m \<Longrightarrow> guard m \<Longrightarrow> attempt m = Inr (None, m1) \<Longrightarrow> I m1"
    and ret: "next_track_loop cf m = Some y"
  shows "I m \<longrightarrow>
         (fst y = Inr None \<and> I (snd y) \<and> (\<not> guard (snd y) \<or> fail_fast (snd y))) \<or>
         (\<exists>m0 t. fst y = Inr (Some t) \<and> I m0 \<and> guard m0 \<and> attempt m0 = Inr (Some t, snd y)) \<or>
         (\<exists>e. fst y = Inl e \<and> I (snd y) \<and> guard (snd y) \<and> attempt (snd y) = Inl e)"
    (is "I m \<longrightarrow> ?Q y")
proof (rule next_track_loop.raw_induct[where P = "\<lambda>cf m y. I m \<longrightarrow> ?Q y", OF _ ret])
  fix loop :: "nat \<Rightarrow> mixer \<Rightarrow> ((error + track option) \<times> mixer) option"
  fix cf m y
  assume IH: "\<And>cf m y. loop cf m = Some y \<Longrightarrow> I m \<longrightarrow> ?Q y"
  assume eq: "(if 0 < length (source_list m) \<and> int (card (track_history m)) < max_tracks m
       then if fail_fast m \<and> length (source_list m) \<le> cf then Some (Inr None, m)
            else case attempt m of Inl e \<Rightarrow> Some (Inl e, m)
                 | Inr (None, m1) \<Rightarrow> loop (cf + 1) m1
                 | Inr (Some candidate_track, m1) \<Rightarrow> Some (Inr (Some candidate_track), m1)
       else Some (Inr None, m)) = Some y"
  show "I m \<longrightarrow> ?Q y"
  proof
    assume Im: "I m"
    show "?Q y"
    proof (cases "guard m")
      case False
      then have "y = (Inr None, m)" using eq by (auto simp: guard_def)
      then show ?thesis using Im False by simp
    next
      case g: True
      show ?thesis
      proof (cases "fail_fast m \<and> length (source_list m) \<le> cf")
        case True
        then have "y = (Inr None, m)" using eq g by (auto simp: guard_def)
        then show ?thesis using Im True by simp
      next
        case ff: False
        show ?thesis
        proof (cases "attempt m")
          case (Inl e)
          then have "y = (Inl e, m)" using eq g ff by (auto simp: guard_def)
          then show ?thesis using Im g Inl by simp
        next
          case (Inr p)
          obtain t m1 where p: "p = (t, m1)" by (cases p)
          show ?thesis
          proof (cases t)
            case None
            have "loop (cf + 1) m1 = Some y"
              using eq g ff Inr p None by (auto simp: guard_def)
            moreover have "I m1" using step[OF Im g] Inr p None by simp
            ultimately show ?thesis using IH by blast
          next
            case (Some c)
            then have "y = (Inr (Some c), m1)" using eq g ff Inr p by (auto simp: guard_def)
            moreover have "attempt m = Inr (Some c, m1)" using Inr p Some by simp
            ultimately show ?thesis using Im g by auto
          qed
        qed
      qed
    qed
  qed
qed

lemma loop_returns:
  assumes ret: "next_track_loop cf m = Some (r, m')"
    and I: "I m"
    and step: "\<And>m m1. I m \<Longrightarrow> guard m \<Longrightarrow> attempt m = Inr (None, m1) \<Longrightarrow> I m1"
  obtains (stop) "r = Inr None" "I m'" "\<not> guard m' \<or> fail_fast m'"
  | (emit) m0 t where "r = Inr (Some t)" "I m0" "guard m0" "attempt m0 = Inr (Some t, m')"
  | (raise) e where "r = Inl e" "I m'" "guard m'" "attempt m' = Inl e"
proof -
  have "I m \<longrightarrow>
         (fst (r, m') = Inr None \<and> I (snd (r, m')) \<and> (\<not> guard (snd (r, m')) \<or> fail_fast (snd (r, m')))) \<or>
         (\<exists>m0 t. fst (r, m') = Inr (Some t) \<and> I m0 \<and> guard m0 \<and> attempt m0 = Inr (Some t, snd (r, m'))) \<or>
         (\<exists>e. fst (r, m') = Inl e \<and> I (snd (r, m')) \<and> guard (snd (r, m')) \<and> attempt (snd (r, m')) = Inl e)"
    by (rule loop_returns_aux[where I = I, OF step ret])
  then show thesis using I stop emit raise by auto
qed

subsection \<open>Fields, well-formedness and runs\<close>

lemma next_channel_fields:
  "source_list (next_channel m) = source_list m"
  "source_positions (next_channel m) = source_positions m"
  "track_history (next_channel m) = track_history m"
  "artist_history (next_channel m) = artist_history m"
  "config (next_channel m) = config m"
  "prepped (next_channel m) = prepped m"
  by (simp_all add: next_channel_def Let_def config_def)

lemma cur_channel_next_channel:
  "cur_channel (next_channel m) =
     (if cur_channel m + 1 \<ge> length (source_list m) then 0 else cur_channel m + 1)"
  by (simp add: next_channel_def Let_def)

lemma add_to_history_fields:
  "source_list (add_to_history m t) = source_list m"
  "source_positions (add_to_history m t) = source_positions m"
  "track_history (add_to_history m t) = insert (track_id t) (track_history m)"
  "cur_channel (add_to_history m t) = cur_channel m"
  "config (add_to_history m t) = config m"
  "prepped (add_to_history m t) = prepped m"
  by (simp_all add: add_to_history_def Let_def config_def)

lemma consume_fields:
  "source_list (consume m) = source_list m"
  "track_history (consume m) = track_history m"
  "artist_history (consume m) = artist_history m"
  "cur_channel (consume m) = cur_channel m"
  "config (consume m) = config m"
  "prepped (consume m) = prepped m"
  "length (source_positions (consume m)) = length (source_positions m)"
  by (simp_all add: consume_def config_def)

lemma prep_fields:
  "source_list (prep m) = source_list m"
  "source_positions (prep m) = source_positions m"
  "track_history (prep m) = track_history m"
  "artist_history (prep m) = artist_history m"
  "cur_channel (prep m) = cur_channel m"
  by (simp_all add: prep_def)

lemma well_formed_next_channel: "well_formed m \<Longrightarrow> well_formed (next_channel m)"
  by (auto simp: well_formed_def next_channel_fields cur_channel_next_channel)

lemma well_formed_add_to_history: "well_formed m \<Longrightarrow> well_formed (add_to_history m t)"
  by (simp add: well_formed_def add_to_history_fields)

lemma well_formed_consume: "well_formed m \<Longrightarrow> well_formed (consume m)"
  by (simp add: well_formed_def consume_fields)

lemma guard_nonempty: "guard m \<Longrightarrow> source_list m \<noteq> []"
  by (auto simp: guard_def)

text \<open>What one attempt does to a well-formed mixer whose guard holds.\<close>

lemma attempt_fail:
  assumes "well_formed m" "guard m" "attempt m = Inr (None, m1)"
  shows "m1 = next_channel m \<or> m1 = next_channel (consume m)"
  using assms(1) guard_nonempty[OF assms(2)]
  by (cases m rule: attempt_cases) (use assms(3) in auto)

lemma attempt_accept:
  assumes "well_formed m" "guard m" "attempt m = Inr (Some t, m1)"
  shows "t = candidate m \<and> \<not> spent_channel m \<and> good_candidate m t \<and>
         m1 = next_channel (add_to_history (consume m) t)"
  using assms(1) guard_nonempty[OF assms(2)]
  by (cases m rule: attempt_cases) (use assms(3) in auto)

lemma attempt_no_error:
  assumes "well_formed m" "guard m"
  shows "attempt m \<noteq> Inl e"
  using assms(1) guard_nonempty[OF assms(2)]
  by (cases m rule: attempt_cases) auto

lemma emitted_snoc:
  "emitted (rs @ [r]) = emitted rs @ (case r of Inr (Some t) \<Rightarrow> [t] | _ \<Rightarrow> [])"
  by (induction rs rule: emitted.induct) (auto split: sum.splits option.splits)

lemma candidate_calls_invariant:
  assumes run: "candidate_calls n m0 = Some (rs, m)"
    and init: "P [] m0"
    and prep: "\<And>es m. P es m \<Longrightarrow> P es (prep m)"
    and fail: "\<And>es m m1. P es m \<Longrightarrow> guard m \<Longrightarrow> attempt m = Inr (None, m1) \<Longrightarrow> P es m1"
    and acc: "\<And>es m t m1. P es m \<Longrightarrow> guard m \<Longrightarrow> attempt m = Inr (Some t, m1) \<Longrightarrow> P (es @ [t]) m1"
  shows "P (emitted rs) m"
  using run
proof (induction n arbitrary: rs m)
  case 0
  then show ?case using init by simp
next
  case (Suc n)
  from Suc.prems obtain rs1 m1 r where
    c1: "candidate_calls n m0 = Some (rs1, m1)" and
    c2: "next_candidate_track m1 = Some (r, m)" and
    rs: "rs = rs1 @ [r]"
    by (auto split: option.splits)
  have P1: "P (emitted rs1) (prep m1)" using Suc.IH[OF c1] prep by blast
  have loop: "next_track_loop 0 (prep m1) = Some (r, m)"
    using c2 by (simp add: next_candidate_track_def)
  show ?case
  proof (rule loop_returns[where I = "P (emitted rs1)", OF loop P1])
    fix m m1 assume "P (emitted rs1) m" "guard m" "attempt m = Inr (None, m1)"
    then show "P (emitted rs1) m1" by (rule fail)
  next
    assume "r = Inr None" "P (emitted rs1) m"
    then show ?thesis by (simp add: rs emitted_snoc)
  next
    fix m0' t assume "r = Inr (Some t)" "P (emitted rs1) m0'" "guard m0'"
      "attempt m0' = Inr (Some t, m)"
    then show ?thesis using acc by (simp add: rs emitted_snoc)
  next
    fix e assume "r = Inl e" "P (emitted rs1) m"
    then show ?thesis by (simp add: rs emitted_snoc)
  qed
qed

lemma next_track_eq:
  "next_track m = map_option (\<lambda>(r, m'). (returned r, m')) (next_candidate_track m)"
  by (auto simp: next_track_def returned_def split: option.splits sum.splits)

lemma calls_eq:
  "calls n m = map_option (\<lambda>(rs, m'). (map returned rs, m')) (candidate_calls n m)"
  by (induction n) (auto simp: next_track_eq split: option.splits)

lemma emitted_returned: "emitted (map returned rs) = map track_id (emitted rs)"
  by (induction rs rule: emitted.induct) (auto simp: returned_def)

lemma Mixer_fields:
  "source_list (Mixer srcs d k ff mx) = srcs"
  "dedup (Mixer srcs d k ff mx) = d"
  "min_artist_separation (Mixer srcs d k ff mx) = k"
  "fail_fast (Mixer srcs d k ff mx) = ff"
  "max_tracks (Mixer srcs d k ff mx) = mx"
  "track_history (Mixer srcs d k ff mx) = {}"
  "artist_history (Mixer srcs d k ff mx) = []"
  "cur_channel (Mixer srcs d k ff mx) = 0"
  "source_positions (Mixer srcs d k ff mx) = map (\<lambda>_. 0) srcs"
  "config (Mixer srcs d k ff mx) = (srcs, d, k, ff, mx)"
  by (simp_all add: Mixer_def config_def)

lemma history_invariant:
  assumes "candidate_calls n (Mixer srcs d k ff mx) = Some (rs, m)"
  shows "well_formed m \<and> config m = (srcs, d, k, ff, mx) \<and>
         track_history m = set (map track_id (emitted rs))"
proof (rule candidate_calls_invariant[where
      P = "\<lambda>(es::track list) m. well_formed m \<and> config m = (srcs, d, k, ff, mx) \<and>
                   track_history m = set (map track_id es)", OF assms])
  show "well_formed (Mixer srcs d k ff mx) \<and> config (Mixer srcs d k ff mx) = (srcs, d, k, ff, mx) \<and>
        track_history (Mixer srcs d k ff mx) = set (map track_id ([]::track list))"
    by (simp add: well_formed_Mixer Mixer_fields)
next
  fix es :: "track list" and m
  assume "well_formed m \<and> config m = (srcs, d, k, ff, mx) \<and> track_history m = set (map track_id es)"
  then show "well_formed (prep m) \<and> config (prep m) = (srcs, d, k, ff, mx) \<and>
             track_history (prep m) = set (map track_id es)"
    by (simp add: well_formed_prep config_prep prep_fields)
next
  fix es :: "track list" and m m1
  assume P: "well_formed m \<and> config m = (srcs, d, k, ff, mx) \<and> track_history m = set (map track_id es)"
    and g: "guard m" and a: "attempt m = Inr (None, m1)"
  from attempt_fail[OF _ g a] P
  have "m1 = next_channel m \<or> m1 = next_channel (consume m)" by simp
  then show "well_formed m1 \<and> config m1 = (srcs, d, k, ff, mx) \<and> track_history m1 = set (map track_id es)"
    using P by (auto simp: well_formed_next_channel well_formed_consume next_channel_fields consume_fields)
next
  fix es :: "track list" and m t m1
  assume P: "well_formed m \<and> config m = (srcs, d, k, ff, mx) \<and> track_history m = set (map track_id es)"
    and g: "guard m" and a: "attempt m = Inr (Some t, m1)"
  from attempt_accept[OF _ g a] P
  have "m1 = next_channel (add_to_history (consume m) t)" by simp
  then show "well_formed m1 \<and> config m1 = (srcs, d, k, ff, mx) \<and>
             track_history m1 = set (map track_id (es @ [t]))"
    using P by (auto simp: well_formed_next_channel well_formed_consume well_formed_add_to_history
        next_channel_fields consume_fields add_to_history_fields)
qed

lemma calls_Some:
  "calls n m0 = Some (ids, m) \<longleftrightarrow> (\<exists>rs. candidate_calls n m0 = Some (rs, m) \<and> ids = map returned rs)"
  by (auto simp: calls_eq)

lemma run_X_X_Y:
  "calls 3 (Mixer [[X1], [X2], [Y1]] False 4 True 2) =
     Some ([Inr (Some ''X''), Inr (Some ''X''), Inr (Some ''Y'')],
           \<lparr>source_list = [[X1], [X2], [Y1]], dedup = False, min_artist_separation = 4,
            fail_fast = True, max_tracks = 2, track_history = {''X'', ''Y''},
            artist_history = [''a'', ''b'', ''c''], cur_channel = 0, prepped = True,
            source_positions = [1, 1, 1]\<rparr>)"
  by code_simp

subsection \<open>The track history\<close>

text \<open>
  Claim C10: after any sequence of \<^verbatim>\<open>next_track\<close> calls on a freshly constructed mixer, the
  set \<^verbatim>\<open>track_history\<close> is exactly the set of track ids returned so far, whatever the
  configuration, \<^verbatim>\<open>dedup = false\<close> included.
\<close>

theorem track_history_is_set_of_returned:
  assumes "calls n (Mixer srcs d k ff mx) = Some (ids, m)"
  shows "track_history m = set (emitted ids)"
proof -
  from assms obtain rs where rs: "candidate_calls n (Mixer srcs d k ff mx) = Some (rs, m)"
    and ids: "ids = map returned rs"
    by (auto simp: calls_Some)
  show ?thesis using history_invariant[OF rs] by (simp add: ids emitted_returned)
qed

theorem track_history_is_set_of_returned_witness:
  "calls 3 (Mixer [[X1], [X2], [Y1]] False 4 True 2) =
     Some ([Inr (Some ''X''), Inr (Some ''X''), Inr (Some ''Y'')],
           \<lparr>source_list = [[X1], [X2], [Y1]], dedup = False, min_artist_separation = 4,
            fail_fast = True, max_tracks = 2, track_history = {''X'', ''Y''},
            artist_history = [''a'', ''b'', ''c''], cur_channel = 0, prepped = True,
            source_positions = [1, 1, 1]\<rparr>) \<and>
   {''X'', ''Y''} = set (emitted [Inr (Some ''X''), Inr (Some ''X''), Inr (Some ''Y'') :: error + string option])"
  using run_X_X_Y track_history_is_set_of_returned[OF run_X_X_Y] by simp

subsection \<open>No track twice under dedup\<close>

lemma dedup_invariant:
  assumes "candidate_calls n (Mixer srcs True k ff mx) = Some (rs, m)"
  shows "well_formed m \<and> config m = (srcs, True, k, ff, mx) \<and> track_history m = set (map track_id (emitted rs)) \<and>
         distinct (map track_id (emitted rs))"
proof (rule candidate_calls_invariant[where
      P = "\<lambda>(es::track list) m. well_formed m \<and> config m = (srcs, True, k, ff, mx) \<and>
             track_history m = set (map track_id es) \<and> distinct (map track_id es)", OF assms])
  show "well_formed (Mixer srcs True k ff mx) \<and> config (Mixer srcs True k ff mx) = (srcs, True, k, ff, mx) \<and>
        track_history (Mixer srcs True k ff mx) = set (map track_id ([]::track list)) \<and>
        distinct (map track_id ([]::track list))"
    by (simp add: well_formed_Mixer Mixer_fields)
next
  fix es :: "track list" and m
  assume "well_formed m \<and> config m = (srcs, True, k, ff, mx) \<and> track_history m = set (map track_id es) \<and> distinct (map track_id es)"
  then show "well_formed (prep m) \<and> config (prep m) = (srcs, True, k, ff, mx) \<and>
             track_history (prep m) = set (map track_id es) \<and> distinct (map track_id es)"
    by (simp add: well_formed_prep prep_fields config_prep)
next
  fix es :: "track list" and m m1
  assume P: "well_formed m \<and> config m = (srcs, True, k, ff, mx) \<and> track_history m = set (map track_id es) \<and> distinct (map track_id es)"
    and g: "guard m" and a: "attempt m = Inr (None, m1)"
  from attempt_fail[OF _ g a] P
  have "m1 = next_channel m \<or> m1 = next_channel (consume m)" by simp
  then show "well_formed m1 \<and> config m1 = (srcs, True, k, ff, mx) \<and> track_history m1 = set (map track_id es) \<and> distinct (map track_id es)"
    using P by (auto simp: well_formed_next_channel well_formed_consume next_channel_fields
        consume_fields)
next
  fix es :: "track list" and m t m1
  assume P: "well_formed m \<and> config m = (srcs, True, k, ff, mx) \<and> track_history m = set (map track_id es) \<and> distinct (map track_id es)"
    and g: "guard m" and a: "attempt m = Inr (Some t, m1)"
  from attempt_accept[OF _ g a] P
  have m1: "m1 = next_channel (add_to_history (consume m) t)" and good: "good_candidate m t" by blast+
  from P have "dedup m" by (simp add: config_def)
  with good P have fresh: "track_id t \<notin> set (map track_id es)"
    by (auto simp: good_candidate_def split: if_splits)
  show "well_formed m1 \<and> config m1 = (srcs, True, k, ff, mx) \<and> track_history m1 = set (map track_id (es @ [t])) \<and>
             distinct (map track_id (es @ [t]))"
    using P m1 fresh by (auto simp: well_formed_next_channel well_formed_consume well_formed_add_to_history
        next_channel_fields consume_fields add_to_history_fields)
qed

lemma run_dedup:
  "calls 3 (Mixer [[X1], [X2], [Y1]] True 4 True 2) =
     Some ([Inr (Some ''X''), Inr (Some ''Y''), Inr None],
           \<lparr>source_list = [[X1], [X2], [Y1]], dedup = True, min_artist_separation = 4,
            fail_fast = True, max_tracks = 2, track_history = {''X'', ''Y''},
            artist_history = [''a'', ''c''], cur_channel = 0, prepped = True,
            source_positions = [1, 1, 1]\<rparr>)"
  by code_simp

text \<open>
  Claim C6: with \<^verbatim>\<open>dedup = true\<close> the track ids returned by any sequence of \<^verbatim>\<open>next_track\<close>
  calls on a freshly constructed mixer are pairwise distinct, and their number equals the
  size of \<^verbatim>\<open>track_history\<close>, after every call and hence after every emission.
\<close>

theorem dedup_distinct:
  assumes "calls n (Mixer srcs True k ff mx) = Some (ids, m)"
  shows "distinct (emitted ids) \<and> length (emitted ids) = card (track_history m)"
proof -
  from assms obtain rs where rs: "candidate_calls n (Mixer srcs True k ff mx) = Some (rs, m)"
    and ids: "ids = map returned rs"
    by (auto simp: calls_Some)
  from dedup_invariant[OF rs] have d: "distinct (emitted ids)"
    and h: "track_history m = set (emitted ids)"
    by (simp_all add: ids emitted_returned)
  show ?thesis using d h by (simp add: distinct_card)
qed

theorem dedup_distinct_witness:
  "calls 3 (Mixer [[X1], [X2], [Y1]] True 4 True 2) =
     Some ([Inr (Some ''X''), Inr (Some ''Y''), Inr None],
           \<lparr>source_list = [[X1], [X2], [Y1]], dedup = True, min_artist_separation = 4,
            fail_fast = True, max_tracks = 2, track_history = {''X'', ''Y''},
            artist_history = [''a'', ''c''], cur_channel = 0, prepped = True,
            source_positions = [1, 1, 1]\<rparr>) \<and>
   distinct (emitted [Inr (Some ''X''), Inr (Some ''Y''), Inr None :: error + string option]) \<and>
   length (emitted [Inr (Some ''X''), Inr (Some ''Y''), Inr None :: error + string option]) = card {''X'', ''Y''}"
  using run_dedup dedup_distinct[OF run_dedup] by simp

subsection \<open>Artist separation\<close>

lemma window_snoc:
  assumes win: "\<forall>i. distinct (take (Suc K) (drop i as))"
    and new: "a \<notin> set (drop (length as - K) as)"
  shows "distinct (take (Suc K) (drop i (as @ [a])))"
proof (cases "i + K < length as")
  case True
  then have eq: "take (Suc K) (drop i (as @ [a])) = take (Suc K) (drop i as)" by simp
  show ?thesis unfolding eq using win by blast
next
  case False
  show ?thesis
  proof (cases "i \<le> length as")
    case le: True
    have short: "length (drop i as) \<le> K" using False by simp
    then have eq: "take (Suc K) (drop i (as @ [a])) = drop i as @ [a]" using le by simp
    have "distinct (take (Suc K) (drop i as))" using win by blast
    then have d: "distinct (drop i as)" using short by simp
    have "length as - K \<le> i" using False by simp
    then have "set (drop i as) \<subseteq> set (drop (length as - K) as)"
      by (rule set_drop_subset_set_drop)
    then have "a \<notin> set (drop i as)" using new by blast
    then show ?thesis unfolding eq using d by simp
  next
    case False
    then show ?thesis by simp
  qed
qed

lemma artist_history_add:
  assumes "0 < k" and "artist_history m = drop (length as - nat k) as"
    and "min_artist_separation m = k"
  shows "artist_history (add_to_history m t) = drop (Suc (length as) - nat k) (as @ [artist_id t])"
proof (cases "length as < nat k")
  case True
  then show ?thesis using assms by (simp add: add_to_history_def Let_def slice_from_def)
next
  case False
  then have len: "length (drop (length as - nat k) as) = nat k" by simp
  have "Suc (length as) - nat k = Suc (length as - nat k)" using False by simp
  then show ?thesis using assms False len
    by (simp add: add_to_history_def Let_def slice_from_def drop_Suc nat_diff_distrib' tl_append split: list.split)
qed

lemma separation_invariant:
  assumes k: "0 < k" and run: "candidate_calls n (Mixer srcs d k ff mx) = Some (rs, m)"
  shows "well_formed m \<and> config m = (srcs, d, k, ff, mx) \<and>
         artist_history m = drop (length (emitted rs) - nat k) (map artist_id (emitted rs)) \<and>
         (\<forall>i. distinct (take (Suc (nat k)) (drop i (map artist_id (emitted rs)))))"
proof (rule candidate_calls_invariant[where
      P = "\<lambda>(es::track list) m. well_formed m \<and> config m = (srcs, d, k, ff, mx) \<and>
             artist_history m = drop (length es - nat k) (map artist_id es) \<and>
             (\<forall>i. distinct (take (Suc (nat k)) (drop i (map artist_id es))))", OF run])
  show "well_formed (Mixer srcs d k ff mx) \<and> config (Mixer srcs d k ff mx) = (srcs, d, k, ff, mx) \<and>
        artist_history (Mixer srcs d k ff mx) =
          drop (length ([]::track list) - nat k) (map artist_id ([]::track list)) \<and>
        (\<forall>i. distinct (take (Suc (nat k)) (drop i (map artist_id ([]::track list)))))"
    by (simp add: well_formed_Mixer Mixer_fields)
next
  fix es :: "track list" and m
  assume "well_formed m \<and> config m = (srcs, d, k, ff, mx) \<and>
          artist_history m = drop (length es - nat k) (map artist_id es) \<and>
          (\<forall>i. distinct (take (Suc (nat k)) (drop i (map artist_id es))))"
  then show "well_formed (prep m) \<and> config (prep m) = (srcs, d, k, ff, mx) \<and>
          artist_history (prep m) = drop (length es - nat k) (map artist_id es) \<and>
          (\<forall>i. distinct (take (Suc (nat k)) (drop i (map artist_id es))))"
    by (simp add: well_formed_prep prep_fields config_prep)
next
  fix es :: "track list" and m m1
  assume P: "well_formed m \<and> config m = (srcs, d, k, ff, mx) \<and>
          artist_history m = drop (length es - nat k) (map artist_id es) \<and>
          (\<forall>i. distinct (take (Suc (nat k)) (drop i (map artist_id es))))"
    and g: "guard m" and a: "attempt m = Inr (None, m1)"
  from attempt_fail[OF _ g a] P
  have "m1 = next_channel m \<or> m1 = next_channel (consume m)" by simp
  then show "well_formed m1 \<and> config m1 = (srcs, d, k, ff, mx) \<and>
          artist_history m1 = drop (length es - nat k) (map artist_id es) \<and>
          (\<forall>i. distinct (take (Suc (nat k)) (drop i (map artist_id es))))"
    using P by (auto simp: well_formed_next_channel well_formed_consume next_channel_fields
        consume_fields)
next
  fix es :: "track list" and m t m1
  assume P: "well_formed m \<and> config m = (srcs, d, k, ff, mx) \<and>
          artist_history m = drop (length es - nat k) (map artist_id es) \<and>
          (\<forall>i. distinct (take (Suc (nat k)) (drop i (map artist_id es))))"
    and g: "guard m" and a: "attempt m = Inr (Some t, m1)"
  let ?as = "map artist_id es"
  from attempt_accept[OF _ g a] P
  have m1: "m1 = next_channel (add_to_history (consume m) t)" and good: "good_candidate m t"
    by blast+
  from good have "artist_id t \<notin> set (artist_history m)"
    by (auto simp: good_candidate_def split: if_splits)
  then have new: "artist_id t \<notin> set (drop (length ?as - nat k) ?as)" using P by simp
  have win: "\<forall>i. distinct (take (Suc (nat k)) (drop i ?as))" using P by blast
  have w: "\<forall>i. distinct (take (Suc (nat k)) (drop i (map artist_id (es @ [t]))))"
    using window_snoc[OF win new] by simp
  have "min_artist_separation (consume m) = k" using P by (simp add: config_def consume_def)
  moreover have "artist_history (consume m) = drop (length ?as - nat k) ?as"
    using P by (simp add: consume_fields)
  ultimately have "artist_history (add_to_history (consume m) t) =
      drop (Suc (length ?as) - nat k) (?as @ [artist_id t])"
    using artist_history_add[OF k] by blast
  then have h: "artist_history m1 = drop (length (es @ [t]) - nat k) (map artist_id (es @ [t]))"
    by (simp add: m1 next_channel_fields)
  have "well_formed m1 \<and> config m1 = (srcs, d, k, ff, mx)"
    using P m1 by (simp add: well_formed_next_channel well_formed_consume well_formed_add_to_history
        next_channel_fields consume_fields add_to_history_fields)
  then show "well_formed m1 \<and> config m1 = (srcs, d, k, ff, mx) \<and>
          artist_history m1 = drop (length (es @ [t]) - nat k) (map artist_id (es @ [t])) \<and>
          (\<forall>i. distinct (take (Suc (nat k)) (drop i (map artist_id (es @ [t])))))"
    using h w by blast
qed

lemma run_A1_B1_A2:
  "candidate_calls 3 (Mixer [[A1, A2], [B1]] True 1 True 10) =
     Some ([Inr (Some A1), Inr (Some B1), Inr (Some A2)],
           \<lparr>source_list = [[A1, A2], [B1]], dedup = True, min_artist_separation = 1,
            fail_fast = True, max_tracks = 10, track_history = {''A1'', ''B1'', ''A2''},
            artist_history = [''a''], cur_channel = 1, prepped = True,
            source_positions = [2, 1]\<rparr>)"
  by code_simp

text \<open>
  Claim C7: with \<^verbatim>\<open>min_artist_separation = k > 0\<close>, in the sequence of tracks accepted by
  any run of \<^verbatim>\<open>next_track\<close> calls on a freshly constructed mixer (the tracks whose ids
  \<^verbatim>\<open>calls\<close> returns) no \<^verbatim>\<open>artist_id\<close> occurs twice in any window of \<open>k + 1\<close> consecutive
  emissions: every such window, starting at any index \<open>i\<close>, is distinct.
\<close>

theorem artist_separation:
  assumes "0 < k" and "candidate_calls n (Mixer srcs d k ff mx) = Some (rs, m)"
  shows "calls n (Mixer srcs d k ff mx) = Some (map returned rs, m) \<and>
         (\<forall>i. distinct (take (nat k + 1) (drop i (map artist_id (emitted rs)))))"
  using separation_invariant[OF assms] assms(2) by (simp add: calls_eq)

theorem artist_separation_witness:
  "(0::int) < 1 \<and>
   candidate_calls 3 (Mixer [[A1, A2], [B1]] True 1 True 10) =
     Some ([Inr (Some A1), Inr (Some B1), Inr (Some A2)],
           \<lparr>source_list = [[A1, A2], [B1]], dedup = True, min_artist_separation = 1,
            fail_fast = True, max_tracks = 10, track_history = {''A1'', ''B1'', ''A2''},
            artist_history = [''a''], cur_channel = 1, prepped = True,
            source_positions = [2, 1]\<rparr>) \<and>
   (\<forall>i. distinct (take (nat 1 + 1) (drop i (map artist_id (emitted [Inr (Some A1), Inr (Some B1), Inr (Some A2) :: error + track option])))))"
  using run_A1_B1_A2 artist_separation[OF _ run_A1_B1_A2] by simp

subsection \<open>No sources, or a cap of zero\<close>

lemma loop_guard_fails: "\<not> guard m \<Longrightarrow> next_track_loop cf m = Some (Inr None, m)"
  by (subst next_track_loop.simps) (auto simp: guard_def)

lemma next_track_guard_fails: "\<not> guard m \<Longrightarrow> next_track m = Some (Inr None, prep m)"
  by (simp add: next_track_def next_candidate_track_def loop_guard_fails guard_prep)

lemma prep_prep: "prep (prep m) = prep m"
  by (simp add: prep_def)

lemma calls_guard_fails:
  "\<not> guard m \<Longrightarrow> calls n m = Some (replicate n (Inr None), if n = 0 then m else prep m)"
proof (induction n)
  case 0
  then show ?case by simp
next
  case (Suc n)
  have g: "\<not> guard (if n = 0 then m else prep m)" using Suc.prems by (simp add: guard_prep)
  have "prep (if n = 0 then m else prep m) = prep m" by (simp add: prep_prep)
  then show ?case using Suc next_track_guard_fails[OF g]
    by (simp add: replicate_append_same)
qed

text \<open>
  Claim C9: a mixer constructed with no sources, or with \<^verbatim>\<open>max_tracks = 0\<close>, never raises:
  each of any number \<open>n\<close> of \<^verbatim>\<open>next_track\<close> calls returns (the run is \<open>Some\<close>), returns
  \<^verbatim>\<open>None\<close> and not an exception, and does so at once: the mixer is left as constructed but
  for the flag \<^verbatim>\<open>prepped\<close>.
\<close>

theorem no_sources_or_zero_cap:
  "calls n (Mixer [] d k ff mx) =
     Some (replicate n (Inr None), if n = 0 then Mixer [] d k ff mx else prep (Mixer [] d k ff mx)) \<and>
   calls n (Mixer srcs d k ff 0) =
     Some (replicate n (Inr None), if n = 0 then Mixer srcs d k ff 0 else prep (Mixer srcs d k ff 0))"
proof -
  have none: "\<not> guard (Mixer [] d k ff mx)" by (simp add: guard_def Mixer_fields)
  have zero: "\<not> guard (Mixer srcs d k ff 0)" by (simp add: guard_def Mixer_fields)
  show ?thesis using calls_guard_fails[OF none] calls_guard_fails[OF zero] by blast
qed

theorem no_sources_or_zero_cap_witness:
  "calls 2 (Mixer [] True 4 False 1000) =
     Some ([Inr None, Inr None], prep (Mixer [] True 4 False 1000)) \<and>
   calls 2 (Mixer [[A1, A2], [B1]] True 4 False 0) =
     Some ([Inr None, Inr None], prep (Mixer [[A1, A2], [B1]] True 4 False 0))"
  using no_sources_or_zero_cap[of 2 True 4 False 1000 "[[A1, A2], [B1]]"]
  by (simp add: numeral_2_eq_2)

subsection \<open>A separation of zero\<close>

lemma zero_separation_keeps_history:
  "min_artist_separation m = 0 \<Longrightarrow>
     artist_history (add_to_history m t) = artist_history m @ [artist_id t]"
  by (simp add: add_to_history_def Let_def slice_from_def)

text \<open>
  Claim C3 says that \<^verbatim>\<open>min_artist_separation = 0\<close> disables the artist constraint: the
  artist history stays empty and no candidate is rejected for its artist. The code does
  otherwise, because \<^verbatim>\<open>artist_history[-0:]\<close> is the whole list: with the single source
  \<^verbatim>\<open>[A1, A2]\<close>, both by artist \<^verbatim>\<open>a\<close>, the first call returns \<^verbatim>\<open>A1\<close>, the second call rejects
  \<^verbatim>\<open>A2\<close> for its artist and returns \<^verbatim>\<open>None\<close>, and the artist history is \<^verbatim>\<open>['a']\<close>, longer
  than \<^verbatim>\<open>min_artist_separation = 0\<close>.
\<close>

theorem zero_separation_blocks_artist:
  "map_option (\<lambda>(ids, m). (ids, artist_history m, min_artist_separation m))
     (calls 2 (Mixer [[A1, A2]] True 0 True 10)) =
   Some ([Inr (Some ''A1''), Inr None], [''a''], 0)"
  by code_simp

subsection \<open>Calls that never return\<close>

lemma next_channel_config_fields:
  "fail_fast (next_channel m) = fail_fast m"
  "max_tracks (next_channel m) = max_tracks m"
  "guard (next_channel m) = guard m"
  "sources_spent (next_channel m) = sources_spent m"
  by (simp_all add: next_channel_def Let_def guard_def sources_spent_def)

lemma prep_config_fields:
  "fail_fast (prep m) = fail_fast m"
  "sources_spent (prep m) = sources_spent m"
  by (simp_all add: prep_def sources_spent_def)

lemma spent_channel_if_sources_spent:
  assumes "well_formed m" "source_list m \<noteq> []" "sources_spent m"
  shows "spent_channel m"
proof -
  have "cur_channel m < length (source_list m)" using assms(1,2) by (simp add: well_formed_def)
  then show ?thesis using assms(3) unfolding sources_spent_def spent_channel_def
    by (rule list_all2_nthD[rotated])
qed

lemma attempt_sources_spent:
  assumes "well_formed m" "guard m" "sources_spent m"
  shows "attempt m = Inr (None, next_channel m)"
  using assms(1) guard_nonempty[OF assms(2)]
proof (cases m rule: attempt_cases)
  case spent
  then show ?thesis by simp
next
  case reject
  then show ?thesis using spent_channel_if_sources_spent[OF assms(1) guard_nonempty[OF assms(2)] assms(3)] by simp
next
  case accept
  then show ?thesis using spent_channel_if_sources_spent[OF assms(1) guard_nonempty[OF assms(2)] assms(3)] by simp
qed

lemma loop_diverges:
  assumes "well_formed m" "guard m" "\<not> fail_fast m" "sources_spent m"
  shows "next_track_loop cf m = None"
proof (rule ccontr)
  assume "next_track_loop cf m \<noteq> None"
  then obtain y where ret: "next_track_loop cf m = Some y" by auto
  have "\<not> (well_formed m \<and> guard m \<and> \<not> fail_fast m \<and> sources_spent m)"
  proof (rule next_track_loop.raw_induct[where
        P = "\<lambda>cf m y. \<not> (well_formed m \<and> guard m \<and> \<not> fail_fast m \<and> sources_spent m)", OF _ ret])
    fix loop :: "nat \<Rightarrow> mixer \<Rightarrow> ((error + track option) \<times> mixer) option"
    fix cf m y
    assume IH: "\<And>cf m y. loop cf m = Some y \<Longrightarrow>
                 \<not> (well_formed m \<and> guard m \<and> \<not> fail_fast m \<and> sources_spent m)"
    assume eq: "(if 0 < length (source_list m) \<and> int (card (track_history m)) < max_tracks m
       then if fail_fast m \<and> length (source_list m) \<le> cf then Some (Inr None, m)
            else case attempt m of Inl e \<Rightarrow> Some (Inl e, m)
                 | Inr (None, m1) \<Rightarrow> loop (cf + 1) m1
                 | Inr (Some candidate_track, m1) \<Rightarrow> Some (Inr (Some candidate_track), m1)
       else Some (Inr None, m)) = Some y"
    show "\<not> (well_formed m \<and> guard m \<and> \<not> fail_fast m \<and> sources_spent m)"
    proof
      assume c: "well_formed m \<and> guard m \<and> \<not> fail_fast m \<and> sources_spent m"
      then have a: "attempt m = Inr (None, next_channel m)" by (simp add: attempt_sources_spent)
      have g: "0 < length (source_list m) \<and> int (card (track_history m)) < max_tracks m"
        using c by (simp add: guard_def)
      have "loop (cf + 1) (next_channel m) = Some y" using eq c a g by simp
      from IH[OF this] have "\<not> (well_formed (next_channel m) \<and> guard (next_channel m) \<and>
          \<not> fail_fast (next_channel m) \<and> sources_spent (next_channel m))" .
      then show False using c by (simp add: well_formed_next_channel next_channel_config_fields)
    qed
  qed
  then show False using assms by blast
qed

lemma next_track_diverges:
  assumes "well_formed m" "guard m" "\<not> fail_fast m" "sources_spent m"
  shows "next_track m = None"
proof -
  have "next_track_loop 0 (prep m) = None"
    using assms by (intro loop_diverges) (simp_all add: well_formed_prep guard_prep prep_config_fields)
  then show ?thesis by (simp add: next_track_def next_candidate_track_def)
qed

lemma run_A1_no_fail_fast:
  "calls 1 (Mixer [[A1]] True 4 False 10) =
     Some ([Inr (Some ''A1'')],
           \<lparr>source_list = [[A1]], dedup = True, min_artist_separation = 4,
            fail_fast = False, max_tracks = 10, track_history = {''A1''},
            artist_history = [''a''], cur_channel = 0, prepped = True,
            source_positions = [1]\<rparr>)"
  by code_simp

text \<open>
  Claim C1 says that every \<^verbatim>\<open>next_track\<close> call terminates and that repeated calls
  eventually return \<^verbatim>\<open>None\<close>, for every configuration. With \<^verbatim>\<open>fail_fast = false\<close> the code
  does not: once every source is read to its end while fewer than \<^verbatim>\<open>max_tracks\<close> ids are
  in the track history, each attempt fails, nothing changes but the channel, and the loop
  runs forever. With the single source \<^verbatim>\<open>[A1]\<close> and \<^verbatim>\<open>max_tracks = 10\<close> the first call
  returns \<^verbatim>\<open>A1\<close> and the second call never returns.
\<close>

theorem second_call_never_returns:
  "map_option fst (calls 1 (Mixer [[A1]] True 4 False 10)) = Some [Inr (Some ''A1'')] \<and>
   calls 2 (Mixer [[A1]] True 4 False 10) = None"
proof -
  let ?m = "\<lparr>source_list = [[A1]], dedup = True, min_artist_separation = 4,
            fail_fast = False, max_tracks = 10, track_history = {''A1''},
            artist_history = [''a''], cur_channel = 0, prepped = True,
            source_positions = [1]\<rparr>"
  have "next_track ?m = None"
    by (rule next_track_diverges) (simp_all add: well_formed_def guard_def sources_spent_def)
  then have "calls 2 (Mixer [[A1]] True 4 False 10) = None"
    using run_A1_no_fail_fast by (simp add: numeral_2_eq_2)
  then show ?thesis using run_A1_no_fail_fast by simp
qed

subsection \<open>Calls that return, and exhaustion\<close>

lemma attempt_preserves:
  assumes "well_formed m" "guard m" "attempt m = Inr (r, m1)"
  shows "well_formed m1 \<and> config m1 = config m"
  using assms(1) guard_nonempty[OF assms(2)]
  by (cases m rule: attempt_cases)
     (use assms in \<open>auto simp: well_formed_next_channel well_formed_consume well_formed_add_to_history
        next_channel_fields consume_fields add_to_history_fields\<close>)

lemma fail_fast_config: "config m1 = config m \<Longrightarrow> fail_fast m1 = fail_fast m"
  by (simp add: config_def)

lemma loop_fail_fast_returns:
  assumes "well_formed m" "fail_fast m"
  shows "\<exists>r m'. next_track_loop cf m = Some (Inr r, m')"
  using assms
proof (induction "length (source_list m) - cf" arbitrary: cf m)
  case 0
  then show ?case by (subst next_track_loop.simps) simp
next
  case (Suc x)
  show ?case
  proof (cases "guard m")
    case False
    then show ?thesis by (simp add: loop_guard_fails)
  next
    case g: True
    then have gd: "0 < length (source_list m) \<and> int (card (track_history m)) < max_tracks m"
      by (simp add: guard_def)
    have lt: "\<not> length (source_list m) \<le> cf" using Suc.hyps(2) by simp
    from attempt_no_error[OF Suc.prems(1) g] obtain r m1 where a: "attempt m = Inr (r, m1)"
      by (cases "attempt m") auto
    show ?thesis
    proof (cases r)
      case None
      from attempt_preserves[OF Suc.prems(1) g a]
      have wf1: "well_formed m1" and c1: "config m1 = config m" by simp_all
      have ff1: "fail_fast m1" using fail_fast_config[OF c1] Suc.prems(2) by simp
      have "source_list m1 = source_list m" using c1 by (simp add: config_def)
      then have "x = length (source_list m1) - (cf + 1)" using Suc.hyps(2) by simp
      from Suc.hyps(1)[OF this wf1 ff1]
      obtain r' m' where "next_track_loop (cf + 1) m1 = Some (Inr r', m')" by blast
      then show ?thesis using gd lt a None by (subst next_track_loop.simps) simp
    next
      case (Some t)
      then show ?thesis using gd lt a by (subst next_track_loop.simps) simp
    qed
  qed
qed

lemma loop_spent_returns_None:
  assumes "well_formed m" "fail_fast m" "sources_spent m"
  shows "\<exists>m'. next_track_loop cf m = Some (Inr None, m') \<and> well_formed m' \<and> fail_fast m' \<and>
              sources_spent m'"
  using assms
proof (induction "length (source_list m) - cf" arbitrary: cf m)
  case 0
  then show ?case by (subst next_track_loop.simps) simp
next
  case (Suc x)
  show ?case
  proof (cases "guard m")
    case False
    then show ?thesis using Suc.prems by (simp add: loop_guard_fails)
  next
    case g: True
    then have gd: "0 < length (source_list m) \<and> int (card (track_history m)) < max_tracks m"
      by (simp add: guard_def)
    have lt: "\<not> length (source_list m) \<le> cf" using Suc.hyps(2) by simp
    have a: "attempt m = Inr (None, next_channel m)"
      using attempt_sources_spent[OF Suc.prems(1) g Suc.prems(3)] .
    have "x = length (source_list (next_channel m)) - (cf + 1)"
      using Suc.hyps(2) by (simp add: next_channel_fields)
    from Suc.hyps(1)[OF this] Suc.prems
    obtain m' where "next_track_loop (cf + 1) (next_channel m) = Some (Inr None, m')"
      "well_formed m'" "fail_fast m'" "sources_spent m'"
      by (auto simp: well_formed_next_channel next_channel_config_fields)
    then show ?thesis using gd lt a by (subst next_track_loop.simps) simp
  qed
qed

lemma terminal_next_track:
  assumes "well_formed m" "terminal m"
  shows "\<exists>m'. next_track m = Some (Inr None, m') \<and> well_formed m' \<and> terminal m'"
proof (cases "guard m")
  case False
  then show ?thesis using assms(1)
    by (simp add: next_track_guard_fails well_formed_prep terminal_def guard_prep)
next
  case True
  then have "fail_fast (prep m)" "sources_spent (prep m)" "well_formed (prep m)"
    using assms by (simp_all add: terminal_def prep_config_fields well_formed_prep)
  from loop_spent_returns_None[OF this(3,1,2), of 0]
  obtain m' where "next_track_loop 0 (prep m) = Some (Inr None, m')" "well_formed m'"
    "fail_fast m'" "sources_spent m'" by blast
  then show ?thesis by (simp add: next_track_def next_candidate_track_def terminal_def)
qed

lemma terminal_calls:
  assumes "well_formed m" "terminal m"
  shows "\<exists>m'. calls j m = Some (replicate j (Inr None), m') \<and> well_formed m' \<and> terminal m'"
proof (induction j)
  case 0
  then show ?case using assms by simp
next
  case (Suc j)
  then obtain m1 where c: "calls j m = Some (replicate j (Inr None), m1)"
    and w: "well_formed m1" and t: "terminal m1" by blast
  from terminal_next_track[OF w t] obtain m' where
    "next_track m1 = Some (Inr None, m')" "well_formed m'" "terminal m'" by blast
  then show ?case using c by (simp add: replicate_append_same)
qed

lemma calls_add:
  "calls (n + j) m0 =
     (case calls n m0 of None \<Rightarrow> None
      | Some (ids, m) \<Rightarrow> map_option (\<lambda>(ids', m'). (ids @ ids', m')) (calls j m))"
  by (induction j) (auto split: option.splits)

lemma calls_well_formed:
  assumes "calls n (Mixer srcs d k ff mx) = Some (ids, m)"
  shows "well_formed m \<and> config m = (srcs, d, k, ff, mx)"
proof -
  from assms obtain rs where "candidate_calls n (Mixer srcs d k ff mx) = Some (rs, m)"
    by (auto simp: calls_Some)
  from history_invariant[OF this] show ?thesis by simp
qed

lemma last_call_None:
  assumes "well_formed m1" "next_track m1 = Some (Inr None, m)"
  shows "\<not> guard m \<or> fail_fast m"
proof -
  from assms(2) obtain r where l: "next_track_loop 0 (prep m1) = Some (r, m)"
    and r: "returned r = Inr None"
    by (auto simp: next_track_eq next_candidate_track_def)
  from r have rN: "r = Inr None" by (auto simp: returned_def split: sum.splits option.splits)
  show ?thesis
    by (rule loop_returns[where I = "\<lambda>_. True", OF l]) (use rN in auto)
qed

lemma run_scenario1:
  "calls (Suc 2) (Mixer [[A1, A2], [B1]] True 4 True 10) =
     Some ([Inr (Some ''A1''), Inr (Some ''B1'')] @ [Inr None],
           \<lparr>source_list = [[A1, A2], [B1]], dedup = True, min_artist_separation = 4,
            fail_fast = True, max_tracks = 10, track_history = {''A1'', ''B1''},
            artist_history = [''a'', ''b''], cur_channel = 0, prepped = True,
            source_positions = [2, 1]\<rparr>)"
  by code_simp

lemma terminal_scenario1:
  "terminal \<lparr>source_list = [[A1, A2], [B1]], dedup = True, min_artist_separation = 4,
            fail_fast = True, max_tracks = 10, track_history = {''A1'', ''B1''},
            artist_history = [''a'', ''b''], cur_channel = 0, prepped = True,
            source_positions = [2, 1]\<rparr>"
  by (simp add: terminal_def sources_spent_def)

text \<open>
  Claim C5 as the specification states it: once a call returns \<^verbatim>\<open>None\<close>, every later call
  returns \<^verbatim>\<open>None\<close>. The code does not behave so with \<^verbatim>\<open>fail_fast = true\<close>: with the single
  source \<^verbatim>\<open>[A1, A2, B1]\<close> the second call consumes and rejects \<^verbatim>\<open>A2\<close> (artist \<^verbatim>\<open>a\<close> again),
  which is one failure for one source, and returns \<^verbatim>\<open>None\<close>; the third call returns
  \<^verbatim>\<open>B1\<close>.
\<close>

theorem track_after_exhaustion:
  "map_option fst (calls 3 (Mixer [[A1, A2, B1]] True 4 True 10)) =
     Some [Inr (Some ''A1''), Inr None, Inr (Some ''B1'')]"
  by code_simp

text \<open>
  Claim C5, amended: on a freshly constructed mixer, once a call returns \<^verbatim>\<open>None\<close>, each of
  any number \<open>j\<close> of later calls returns \<^verbatim>\<open>None\<close> too, provided \<^verbatim>\<open>fail_fast\<close> is false, or
  the guard of the loop is false after that call (no sources, or the track history has
  reached \<^verbatim>\<open>max_tracks\<close>), or every source is read to its end.
\<close>

theorem exhaustion_terminal_if_spent:
  assumes run: "calls (Suc n) (Mixer srcs d k ff mx) = Some (ids @ [Inr None], m)"
    and why: "\<not> ff \<or> terminal m"
  shows "\<exists>m'. calls (Suc n + j) (Mixer srcs d k ff mx) =
           Some (ids @ [Inr None] @ replicate j (Inr None), m')"
proof -
  from calls_well_formed[OF run] have wf: "well_formed m" and cfg: "config m = (srcs, d, k, ff, mx)"
    by simp_all
  have t: "terminal m"
  proof (cases ff)
    case True
    then show ?thesis using why by simp
  next
    case False
    from run obtain ids1 m1 r where c1: "calls n (Mixer srcs d k ff mx) = Some (ids1, m1)"
      and nt: "next_track m1 = Some (r, m)" and e: "ids @ [Inr None] = ids1 @ [r]"
      by (auto split: option.splits)
    from e have "r = Inr None" by simp
    with nt calls_well_formed[OF c1] have "\<not> guard m \<or> fail_fast m"
      using last_call_None by blast
    moreover have "\<not> fail_fast m" using cfg False by (simp add: config_def)
    ultimately show ?thesis by (simp add: terminal_def)
  qed
  from terminal_calls[OF wf t, of j] obtain m' where
    "calls j m = Some (replicate j (Inr None), m')" by blast
  then show ?thesis using run by (simp only: calls_add) simp
qed

theorem exhaustion_terminal_if_spent_witness:
  "calls (Suc 2) (Mixer [[A1, A2], [B1]] True 4 True 10) =
     Some ([Inr (Some ''A1''), Inr (Some ''B1'')] @ [Inr None],
           \<lparr>source_list = [[A1, A2], [B1]], dedup = True, min_artist_separation = 4,
            fail_fast = True, max_tracks = 10, track_history = {''A1'', ''B1''},
            artist_history = [''a'', ''b''], cur_channel = 0, prepped = True,
            source_positions = [2, 1]\<rparr>) \<and>
   terminal \<lparr>source_list = [[A1, A2], [B1]], dedup = True, min_artist_separation = 4,
            fail_fast = True, max_tracks = 10, track_history = {''A1'', ''B1''},
            artist_history = [''a'', ''b''], cur_channel = 0, prepped = True,
            source_positions = [2, 1]\<rparr> \<and>
   (\<exists>m'. calls (Suc 2 + 2) (Mixer [[A1, A2], [B1]] True 4 True 10) =
      Some ([Inr (Some ''A1''), Inr (Some ''B1'')] @ [Inr None] @ replicate 2 (Inr None), m'))"
  using run_scenario1 terminal_scenario1
    exhaustion_terminal_if_spent[OF run_scenario1 disjI2[OF terminal_scenario1], of 2]
  by blast

subsection \<open>The cap without dedup\<close>

text \<open>
  The caller \<^verbatim>\<open>mix_tracks\<close> does cap what it collects: it stops as soon as it holds
  \<^verbatim>\<open>max_tracks\<close> ids, so that its result never has more, whatever \<^verbatim>\<open>dedup\<close> is.
\<close>

lemma mix_tracks_X_X:
  "mix_tracks [[X1], [X2], [Y1]] False 4 True 2 = Some (Inr [''X'', ''X''])"
  by code_simp

lemma next_track_emits:
  assumes wf: "well_formed m" and nt: "next_track m = Some (Inr (Some x), m1)"
  shows "0 < max_tracks m \<and> well_formed m1 \<and> max_tracks m1 = max_tracks m"
proof -
  from nt obtain r where l: "next_track_loop 0 (prep m) = Some (r, m1)"
    and r: "returned r = Inr (Some x)"
    by (auto simp: next_track_eq next_candidate_track_def)
  let ?I = "\<lambda>y. well_formed y \<and> config y = config m"
  have I0: "?I (prep m)" using wf by (simp add: well_formed_prep config_prep)
  have step: "\<And>y y1. ?I y \<Longrightarrow> guard y \<Longrightarrow> attempt y = Inr (None, y1) \<Longrightarrow> ?I y1"
    using attempt_preserves by metis
  show ?thesis
  proof (rule loop_returns[where I = ?I, OF l I0 step])
    assume "r = Inr None"
    then show ?thesis using r by (simp add: returned_def)
  next
    fix e assume "r = Inl e"
    then show ?thesis using r by (simp add: returned_def)
  next
    fix m0 t
    assume "r = Inr (Some t)" and I: "?I m0" and g: "guard m0" and a: "attempt m0 = Inr (Some t, m1)"
    from attempt_preserves[OF _ g a] I have "well_formed m1" "config m1 = config m" by simp_all
    moreover have "0 < max_tracks m0" using g by (simp add: guard_def)
    moreover have "max_tracks m0 = max_tracks m" using I by (simp add: config_def)
    ultimately show ?thesis by (simp add: config_def)
  qed
qed

lemma mix_tracks_loop_capped:
  assumes ret: "mix_tracks_loop mx mixer mixed = Some y"
  shows "well_formed mixer \<and> max_tracks mixer = mx \<and> (mixed = [] \<or> int (length mixed) < mx) \<longrightarrow>
         (\<forall>ids. y = Inr ids \<longrightarrow> int (length ids) \<le> max mx 0)"
proof (rule mix_tracks_loop.raw_induct[where
      P = "\<lambda>mx mixer mixed y. well_formed mixer \<and> max_tracks mixer = mx \<and>
             (mixed = [] \<or> int (length mixed) < mx) \<longrightarrow>
             (\<forall>ids. y = Inr ids \<longrightarrow> int (length ids) \<le> max mx 0)", OF _ ret])
  fix loop :: "int \<Rightarrow> mixer \<Rightarrow> string list \<Rightarrow> (error + string list) option"
  fix mx mixer mixed y
  assume IH: "\<And>mx mixer mixed y. loop mx mixer mixed = Some y \<Longrightarrow>
      well_formed mixer \<and> max_tracks mixer = mx \<and> (mixed = [] \<or> int (length mixed) < mx) \<longrightarrow>
      (\<forall>ids. y = Inr ids \<longrightarrow> int (length ids) \<le> max mx 0)"
  assume eq: "(case next_track mixer of None \<Rightarrow> None
       | Some (Inl e, mixer1) \<Rightarrow> Some (Inl e)
       | Some (Inr None, mixer1) \<Rightarrow> Some (Inr mixed)
       | Some (Inr (Some tid), mixer1) \<Rightarrow>
           let mixed_tracks1 = mixed @ [tid]
           in if mx \<le> int (length mixed_tracks1) then Some (Inr mixed_tracks1)
              else loop mx mixer1 mixed_tracks1) = Some y"
  show "well_formed mixer \<and> max_tracks mixer = mx \<and> (mixed = [] \<or> int (length mixed) < mx) \<longrightarrow>
        (\<forall>ids. y = Inr ids \<longrightarrow> int (length ids) \<le> max mx 0)"
  proof (intro impI allI)
    fix ids
    assume pre: "well_formed mixer \<and> max_tracks mixer = mx \<and> (mixed = [] \<or> int (length mixed) < mx)"
      and y: "y = Inr ids"
    from eq obtain r mixer1 where nt: "next_track mixer = Some (r, mixer1)"
      by (cases "next_track mixer") auto
    show "int (length ids) \<le> max mx 0"
    proof (cases r)
      case (Inl e)
      then show ?thesis using eq nt y by simp
    next
      case (Inr o1)
      show ?thesis
      proof (cases o1)
        case None
        then have "ids = mixed" using eq nt y Inr by simp
        then show ?thesis using pre by auto
      next
        case (Some x)
        from next_track_emits[of mixer x mixer1] pre nt Inr Some
        have pos: "0 < mx" and wf1: "well_formed mixer1" and mx1: "max_tracks mixer1 = mx"
          by simp_all
        have len: "int (length (mixed @ [x])) \<le> mx" using pre pos by auto
        show ?thesis
        proof (cases "mx \<le> int (length (mixed @ [x]))")
          case True
          then have "ids = mixed @ [x]" using eq nt y Inr Some by simp
          then show ?thesis using len by simp
        next
          case False
          then have "loop mx mixer1 (mixed @ [x]) = Some y" using eq nt Inr Some by simp
          from IH[OF this] wf1 mx1 False y show ?thesis by simp
        qed
      qed
    qed
  qed
qed

lemma mix_tracks_capped:
  assumes "mix_tracks srcs d k ff mx = Some (Inr ids)" and "0 \<le> mx"
  shows "int (length ids) \<le> mx"
  using mix_tracks_loop_capped[of mx "Mixer srcs d k ff mx" "[]" "Inr ids"] assms
  by (simp add: mix_tracks_def well_formed_Mixer Mixer_fields)

text \<open>
  Claim C2 says that at most \<^verbatim>\<open>max_tracks\<close> track ids are ever returned, with
  \<^verbatim>\<open>dedup = false\<close> too. The guard of the loop compares \<^verbatim>\<open>len(track_history)\<close>, the number
  of distinct ids, with \<^verbatim>\<open>max_tracks\<close>: with \<^verbatim>\<open>dedup = false\<close>, \<^verbatim>\<open>max_tracks = 2\<close> and three
  sources holding \<^verbatim>\<open>X\<close>, \<^verbatim>\<open>X\<close> (another artist) and \<^verbatim>\<open>Y\<close>, three calls return three ids.
\<close>

theorem cap_exceeded_without_dedup:
  "map_option (\<lambda>(ids, m). (emitted ids, max_tracks m))
     (calls 3 (Mixer [[X1], [X2], [Y1]] False 4 True 2)) =
   Some ([''X'', ''X'', ''Y''], 2)"
  by code_simp

subsection \<open>Round robin\<close>

lemma ready_prep: "ready (prep m) = ready m"
  by (simp add: ready_def guard_def spent_channel_def candidate_def good_candidate_def prep_def)

lemma candidate_prep: "candidate (prep m) = candidate m"
  by (simp add: candidate_def prep_def)

lemma ready_attempt:
  assumes "well_formed m" "ready m"
  shows "attempt m = Inr (Some (candidate m), next_channel (add_to_history (consume m) (candidate m)))"
proof -
  have g: "guard m" using assms(2) by (simp add: ready_def)
  show ?thesis using assms(1) guard_nonempty[OF g]
    by (cases m rule: attempt_cases) (use assms(2) in \<open>auto simp: ready_def\<close>)
qed

lemma ready_next_candidate_track:
  assumes "well_formed m" "ready m"
  shows "next_candidate_track m =
           Some (Inr (Some (candidate m)),
                 next_channel (add_to_history (consume (prep m)) (candidate m)))"
proof -
  have r: "ready (prep m)" and w: "well_formed (prep m)"
    using assms by (simp_all add: ready_prep well_formed_prep)
  then have g: "0 < length (source_list (prep m)) \<and>
      int (card (track_history (prep m))) < max_tracks (prep m)"
    by (simp add: ready_def guard_def)
  show ?thesis unfolding next_candidate_track_def
    by (subst next_track_loop.simps) (use g ready_attempt[OF w r] in \<open>simp add: candidate_prep\<close>)
qed

lemma attempt_channel:
  assumes "well_formed m" "source_list m \<noteq> []" "attempt m = Inr (r, m1)"
  shows "cur_channel m1 = (cur_channel m + 1) mod length (source_list m) \<and>
         well_formed m1 \<and> source_list m1 = source_list m"
proof -
  have c: "cur_channel m < length (source_list m)" using assms(1,2) by (simp add: well_formed_def)
  then have step: "(if length (source_list m) \<le> cur_channel m + 1 then 0 else cur_channel m + 1) =
      (cur_channel m + 1) mod length (source_list m)"
    by (auto simp: le_Suc_eq)
  show ?thesis using assms(1,2)
    by (cases m rule: attempt_cases)
       (use assms(1,3) step in \<open>auto simp: cur_channel_next_channel next_channel_fields
          consume_fields add_to_history_fields well_formed_next_channel well_formed_consume
          well_formed_add_to_history\<close>)
qed

lemma undisturbed_Suc:
  "undisturbed (Suc n) m0 \<longleftrightarrow>
     undisturbed n m0 \<and> (case candidate_calls n m0 of None \<Rightarrow> False | Some (rs, m) \<Rightarrow> ready m)"
  by (simp add: undisturbed_def)

lemma round_robin_run:
  assumes ne: "srcs \<noteq> []" and und: "undisturbed n (Mixer srcs d k ff mx)"
  shows "\<exists>rs m. candidate_calls n (Mixer srcs d k ff mx) = Some (rs, m) \<and>
           cur_channel m = n mod length srcs \<and> length rs = n \<and>
           (\<forall>i<n. \<exists>rs' m'. candidate_calls i (Mixer srcs d k ff mx) = Some (rs', m') \<and>
                     cur_channel m' = i mod length srcs \<and> rs ! i = Inr (Some (candidate m')))"
  using und
proof (induction n)
  case 0
  then show ?case by (simp add: Mixer_fields)
next
  case (Suc n)
  let ?M = "Mixer srcs d k ff mx"
  from Suc.prems have u: "undisturbed n ?M"
    and rdy: "case candidate_calls n ?M of None \<Rightarrow> False | Some (rs, m) \<Rightarrow> ready m"
    by (simp_all add: undisturbed_Suc)
  from Suc.IH[OF u] obtain rs m where run: "candidate_calls n ?M = Some (rs, m)"
    and ch: "cur_channel m = n mod length srcs" and len: "length rs = n"
    and prev: "\<forall>i<n. \<exists>rs' m'. candidate_calls i ?M = Some (rs', m') \<and>
                     cur_channel m' = i mod length srcs \<and> rs ! i = Inr (Some (candidate m'))"
    by blast
  from rdy run have r: "ready m" by simp
  from history_invariant[OF run] have wf: "well_formed m" and cfg: "config m = (srcs, d, k, ff, mx)"
    by simp_all
  have src: "source_list m = srcs" using cfg by (simp add: config_def)
  let ?m2 = "next_channel (add_to_history (consume (prep m)) (candidate m))"
  have nt: "next_candidate_track m = Some (Inr (Some (candidate m)), ?m2)"
    by (rule ready_next_candidate_track[OF wf r])
  have a: "attempt (prep m) = Inr (Some (candidate m), ?m2)"
    using ready_attempt[of "prep m"] wf r by (simp add: well_formed_prep ready_prep candidate_prep)
  have "cur_channel ?m2 = (cur_channel (prep m) + 1) mod length (source_list (prep m))"
    using attempt_channel[OF _ _ a] wf ne src by (simp add: well_formed_prep prep_fields)
  then have ch2: "cur_channel ?m2 = Suc n mod length srcs"
    using ch src by (simp add: prep_fields mod_Suc_eq)
  have run2: "candidate_calls (Suc n) ?M = Some (rs @ [Inr (Some (candidate m))], ?m2)"
    using run nt by simp
  have "\<forall>i<Suc n. \<exists>rs' m'. candidate_calls i ?M = Some (rs', m') \<and>
          cur_channel m' = i mod length srcs \<and>
          (rs @ [Inr (Some (candidate m))]) ! i = Inr (Some (candidate m'))"
  proof (intro allI impI)
    fix i assume "i < Suc n"
    then consider "i < n" | "i = n" by linarith
    then show "\<exists>rs' m'. candidate_calls i ?M = Some (rs', m') \<and>
          cur_channel m' = i mod length srcs \<and>
          (rs @ [Inr (Some (candidate m))]) ! i = Inr (Some (candidate m'))"
    proof cases
      case 1
      then show ?thesis using prev len by (simp add: nth_append)
    next
      case 2
      then show ?thesis using run ch len by (simp add: nth_append)
    qed
  qed
  then show ?case using run2 ch2 len by simp
qed

lemma run_round_robin:
  "candidate_calls 4 (Mixer [[A1, X1], [B1], [Y1]] True 1 True 10) =
     Some ([Inr (Some A1), Inr (Some B1), Inr (Some Y1), Inr (Some X1)],
           \<lparr>source_list = [[A1, X1], [B1], [Y1]], dedup = True, min_artist_separation = 1,
            fail_fast = True, max_tracks = 10, track_history = {''A1'', ''B1'', ''Y'', ''X''},
            artist_history = [''a''], cur_channel = 1, prepped = True,
            source_positions = [2, 1, 1]\<rparr>)"
  by code_simp

lemma undisturbed_round_robin:
  "undisturbed 4 (Mixer [[A1, X1], [B1], [Y1]] True 1 True 10)"
  by code_simp

lemma attempt_round_robin:
  "attempt (Mixer [[A1, X1], [B1], [Y1]] True 1 True 10) =
     Inr (Some A1,
          \<lparr>source_list = [[A1, X1], [B1], [Y1]], dedup = True, min_artist_separation = 1,
            fail_fast = True, max_tracks = 10, track_history = {''A1''},
            artist_history = [''a''], cur_channel = 1, prepped = False,
            source_positions = [1, 0, 0]\<rparr>)"
  by code_simp

text \<open>
  Claim C8, for a mixer freshly constructed over at least one source and the mixer \<open>m\<close> it
  has become after \<open>n\<close> calls. The current channel is below the number of sources. Every
  attempt, successful or not, on a well-formed mixer over these sources moves the current
  channel to the next one modulo the number of sources, and leaves the mixer well formed
  with its channel in range. And when no candidate is rejected and no channel is found used
  up during these \<open>n\<close> calls, the sources are read in the cyclic order 0, 1, ..., N-1, 0,
  ...: call number \<open>i\<close> (from 0) starts with the current channel at \<open>i mod N\<close> and returns
  the candidate at the position of that channel, and after the \<open>n\<close> calls the channel is
  \<open>n mod N\<close>.
\<close>

theorem round_robin:
  assumes "srcs \<noteq> []" and "candidate_calls n (Mixer srcs d k ff mx) = Some (rs, m)"
  shows "cur_channel m < length srcs \<and>
         (\<forall>m' r m1. well_formed m' \<and> source_list m' = srcs \<and> attempt m' = Inr (r, m1) \<longrightarrow>
            cur_channel m1 = (cur_channel m' + 1) mod length srcs \<and>
            cur_channel m1 < length srcs \<and> well_formed m1 \<and> source_list m1 = srcs) \<and>
         (undisturbed n (Mixer srcs d k ff mx) \<longrightarrow>
            cur_channel m = n mod length srcs \<and> length rs = n \<and>
            (\<forall>i<n. \<exists>rs' m'. candidate_calls i (Mixer srcs d k ff mx) = Some (rs', m') \<and>
               cur_channel m' = i mod length srcs \<and> rs ! i = Inr (Some (candidate m'))))"
proof (intro conjI allI impI)
  from history_invariant[OF assms(2)] have "well_formed m" "source_list m = srcs"
    by (simp_all add: config_def)
  then show "cur_channel m < length srcs" using assms(1) by (auto simp: well_formed_def)
next
  fix m' r m1
  assume h: "well_formed m' \<and> source_list m' = srcs \<and> attempt m' = Inr (r, m1)"
  with attempt_channel[of m' r m1] assms(1)
  have *: "cur_channel m1 = (cur_channel m' + 1) mod length srcs" "well_formed m1"
    "source_list m1 = srcs" by auto
  show "cur_channel m1 = (cur_channel m' + 1) mod length srcs" by (rule *)
  show "cur_channel m1 < length srcs" using * assms(1) by simp
  show "well_formed m1" by (rule *)
  show "source_list m1 = srcs" by (rule *)
next
  assume u: "undisturbed n (Mixer srcs d k ff mx)"
  from round_robin_run[OF assms(1) u] assms(2)
  show "cur_channel m = n mod length srcs" "length rs = n" by auto
  fix i assume "i < n"
  with round_robin_run[OF assms(1) u] assms(2)
  show "\<exists>rs' m'. candidate_calls i (Mixer srcs d k ff mx) = Some (rs', m') \<and>
               cur_channel m' = i mod length srcs \<and> rs ! i = Inr (Some (candidate m'))"
    by auto
qed

theorem round_robin_witness:
  "[[A1, X1], [B1], [Y1]] \<noteq> [] \<and>
   undisturbed 4 (Mixer [[A1, X1], [B1], [Y1]] True 1 True 10) \<and>
   (\<exists>rs m. candidate_calls 4 (Mixer [[A1, X1], [B1], [Y1]] True 1 True 10) = Some (rs, m) \<and>
      cur_channel m < 3 \<and> cur_channel m = 4 mod 3 \<and> length rs = 4 \<and>
      (\<forall>i<4. \<exists>rs' m'.
         candidate_calls i (Mixer [[A1, X1], [B1], [Y1]] True 1 True 10) = Some (rs', m') \<and>
         cur_channel m' = i mod 3 \<and> rs ! i = Inr (Some (candidate m')))) \<and>
   (\<exists>r m1. attempt (Mixer [[A1, X1], [B1], [Y1]] True 1 True 10) = Inr (r, m1) \<and>
      cur_channel m1 = (cur_channel (Mixer [[A1, X1], [B1], [Y1]] True 1 True 10) + 1) mod 3)"
proof -
  let ?M = "Mixer [[A1, X1], [B1], [Y1]] True 1 True 10"
  have ne: "[[A1, X1], [B1], [Y1]] \<noteq> []" by simp
  have l3: "length [[A1, X1], [B1], [Y1]] = 3" by simp
  note rr = round_robin[OF ne run_round_robin, unfolded l3]
  have wf: "well_formed ?M" by (rule well_formed_Mixer)
  have src: "source_list ?M = [[A1, X1], [B1], [Y1]]" by (simp only: Mixer_fields)
  from rr wf src attempt_round_robin have b: "\<exists>r m1. attempt ?M = Inr (r, m1) \<and>
      cur_channel m1 = (cur_channel ?M + 1) mod 3"
    by blast
  from rr undisturbed_round_robin run_round_robin
  have a: "\<exists>rs m. candidate_calls 4 ?M = Some (rs, m) \<and>
      cur_channel m < 3 \<and> cur_channel m = 4 mod 3 \<and> length rs = 4 \<and>
      (\<forall>i<4. \<exists>rs' m'. candidate_calls i ?M = Some (rs', m') \<and>
         cur_channel m' = i mod 3 \<and> rs ! i = Inr (Some (candidate m')))"
    by blast
  show ?thesis using ne undisturbed_round_robin a b by blast
qed

subsection \<open>Scenario 1\<close>

lemma run_scenario1_no_fail_fast:
  "calls 2 (Mixer [[A1, A2], [B1]] True 4 False 10) =
     Some ([Inr (Some ''A1''), Inr (Some ''B1'')],
           \<lparr>source_list = [[A1, A2], [B1]], dedup = True, min_artist_separation = 4,
            fail_fast = False, max_tracks = 10, track_history = {''A1'', ''B1''},
            artist_history = [''a'', ''b''], cur_channel = 0, prepped = True,
            source_positions = [1, 1]\<rparr>)"
  by code_simp

lemma loop_step_fail:
  assumes "guard m" "\<not> (fail_fast m \<and> length (source_list m) \<le> cf)" "attempt m = Inr (None, m1)"
  shows "next_track_loop cf m = next_track_loop (cf + 1) m1"
  by (subst next_track_loop.simps) (use assms in \<open>auto simp: guard_def\<close>)

lemma calls_Suc_None: "calls n m = None \<Longrightarrow> calls (Suc n) m = None"
  by simp

lemma scenario1_no_fail_fast_diverges:
  "calls 3 (Mixer [[A1, A2], [B1]] True 4 False 10) = None"
proof -
  let ?m2 = "\<lparr>source_list = [[A1, A2], [B1]], dedup = True, min_artist_separation = 4,
            fail_fast = False, max_tracks = 10, track_history = {''A1'', ''B1''},
            artist_history = [''a'', ''b''], cur_channel = 0, prepped = True,
            source_positions = [1, 1]\<rparr>"
  let ?m3 = "\<lparr>source_list = [[A1, A2], [B1]], dedup = True, min_artist_separation = 4,
            fail_fast = False, max_tracks = 10, track_history = {''A1'', ''B1''},
            artist_history = [''a'', ''b''], cur_channel = 1, prepped = True,
            source_positions = [2, 1]\<rparr>"
  have a: "attempt ?m2 = Inr (None, ?m3)" by code_simp
  have d: "next_track_loop (0 + 1) ?m3 = None"
    by (rule loop_diverges) (simp_all add: well_formed_def guard_def sources_spent_def)
  have g: "guard ?m2" by (simp add: guard_def)
  have "next_track_loop 0 ?m2 = next_track_loop (0 + 1) ?m3"
    by (rule loop_step_fail[OF g _ a]) simp
  then have "next_track_loop 0 ?m2 = None" using d by simp
  then have "next_track ?m2 = None"
    by (simp add: next_track_def next_candidate_track_def prep_def)
  then show ?thesis using run_scenario1_no_fail_fast by (simp add: numeral_3_eq_3 numeral_2_eq_2)
qed

text \<open>
  Claim C4 as the specification states it: with sources \<^verbatim>\<open>[[A1, A2], [B1]]\<close>,
  \<^verbatim>\<open>min_artist_separation = 4\<close>, \<^verbatim>\<open>dedup = true\<close>, \<^verbatim>\<open>max_tracks = 10\<close> (and the default
  \<^verbatim>\<open>fail_fast = true\<close>) the calls would return \<^verbatim>\<open>A1\<close>, \<^verbatim>\<open>B1\<close>, \<^verbatim>\<open>A2\<close> and then \<^verbatim>\<open>None\<close>. The
  code does not: the third call reads \<^verbatim>\<open>A2\<close>, rejects it because artist \<^verbatim>\<open>a\<close> is still among
  the last four artists, finds the second source used up and returns \<^verbatim>\<open>None\<close>. With
  \<^verbatim>\<open>fail_fast = false\<close> instead, the third call rejects \<^verbatim>\<open>A2\<close> likewise and then never
  returns.
\<close>

theorem scenario1_not_A1_B1_A2:
  "map_option fst (calls 4 (Mixer [[A1, A2], [B1]] True 4 True 10)) \<noteq>
     Some [Inr (Some ''A1''), Inr (Some ''B1''), Inr (Some ''A2''), Inr None] \<and>
   map_option fst (calls 4 (Mixer [[A1, A2], [B1]] True 4 False 10)) \<noteq>
     Some [Inr (Some ''A1''), Inr (Some ''B1''), Inr (Some ''A2''), Inr None]"
proof
  show "map_option fst (calls 4 (Mixer [[A1, A2], [B1]] True 4 True 10)) \<noteq>
     Some [Inr (Some ''A1''), Inr (Some ''B1''), Inr (Some ''A2''), Inr None]"
    by code_simp
  have four: "(4::nat) = Suc 3" by simp
  have "calls 4 (Mixer [[A1, A2], [B1]] True 4 False 10) = None"
    by (subst four) (rule calls_Suc_None[OF scenario1_no_fail_fast_diverges])
  then show "map_option fst (calls 4 (Mixer [[A1, A2], [B1]] True 4 False 10)) \<noteq>
     Some [Inr (Some ''A1''), Inr (Some ''B1''), Inr (Some ''A2''), Inr None]"
    by simp
qed

text \<open>
  Claim C4, amended: in that scenario the calls return \<^verbatim>\<open>A1\<close>, then \<^verbatim>\<open>B1\<close>, then \<^verbatim>\<open>None\<close>, and
  \<^verbatim>\<open>None\<close> again at each of any number \<open>j\<close> of further calls; \<^verbatim>\<open>A2\<close> is consumed by the third
  call and never produced.
\<close>

theorem scenario1_A1_B1_then_exhaustion:
  "\<exists>m'. calls (Suc 2 + j) (Mixer [[A1, A2], [B1]] True 4 True 10) =
     Some ([Inr (Some ''A1''), Inr (Some ''B1''), Inr None] @ replicate j (Inr None), m')"
proof -
  let ?m = "\<lparr>source_list = [[A1, A2], [B1]], dedup = True, min_artist_separation = 4,
            fail_fast = True, max_tracks = 10, track_history = {''A1'', ''B1''},
            artist_history = [''a'', ''b''], cur_channel = 0, prepped = True,
            source_positions = [2, 1]\<rparr>"
  have "well_formed ?m" by (simp add: well_formed_def)
  from terminal_calls[OF this terminal_scenario1, of j] obtain m' where
    "calls j ?m = Some (replicate j (Inr None), m')" by blast
  then show ?thesis using run_scenario1 by (simp only: calls_add) simp
qed


end
